theory Spec2Isabelle
  imports Complex_Main "HOL-Library.Multiset"
begin

section \<open>Python primitives used by nlp.py\<close>

text \<open>
  Words, tokens and texts are Python strings, modelled as \<^typ>\<open>string\<close>; Python integers
  are \<^typ>\<open>int\<close>. Every exception that one of the modelled functions can raise is a
  constructor of \<open>error\<close>, and a function that can raise returns \<open>error + 'a\<close>.
\<close>

datatype error = ZeroDivisionError | IndexError | ValueError

text \<open>\<open>s.split(" ")\<close>: cut at every single space; the result is never empty, and the
  empty text gives one empty word.\<close>

fun split_sp :: "string \<Rightarrow> string list" where
  "split_sp [] = [[]]"
| "split_sp (c # cs) =
     (if c = CHR '' '' then [] # split_sp cs
      else (case split_sp cs of [] \<Rightarrow> [[c]] | w # ws \<Rightarrow> (c # w) # ws))"

text \<open>\<open>" ".join(ws)\<close>.\<close>

fun join_sp :: "string list \<Rightarrow> string" where
  "join_sp [] = []"
| "join_sp [w] = w"
| "join_sp (w # ws) = w @ CHR '' '' # join_sp ws"

text \<open>A slice bound of \<open>xs[a:b]\<close>: a negative bound counts from the end, and every bound is
  then clamped to \<open>0 .. len(xs)\<close>.\<close>

definition slice_bound :: "int \<Rightarrow> nat \<Rightarrow> nat" where
  "slice_bound i n = (if i < 0 then nat (max (i + int n) 0) else min (nat i) n)"

definition py_slice :: "int \<Rightarrow> int \<Rightarrow> 'a list \<Rightarrow> 'a list" where
  "py_slice a b xs =
     (let lo = slice_bound a (length xs); hi = slice_bound b (length xs)
      in take (hi - lo) (drop lo xs))"

text \<open>\<open>xs[i]\<close>: a negative index counts from the end; out of range raises.\<close>

definition py_index :: "'a list \<Rightarrow> int \<Rightarrow> error + 'a" where
  "py_index xs i =
     (let n = int (length xs); j = (if i < 0 then i + n else i)
      in if 0 \<le> j \<and> j < n then Inr (xs ! nat j) else Inl IndexError)"

text \<open>\<open>range(m)\<close> and \<open>range(start, stop, step)\<close>; a zero step raises.\<close>

definition py_range :: "int \<Rightarrow> int list" where
  "py_range m = map int [0 ..< nat m]"

definition py_range3 :: "int \<Rightarrow> int \<Rightarrow> int \<Rightarrow> error + int list" where
  "py_range3 start stop step =
     (if step = 0 then Inl ValueError
      else if 0 < step then
        Inr (map (\<lambda>t. start + int t * step) [0 ..< nat ((stop - start + step - 1) div step)])
      else
        Inr (map (\<lambda>t. start + int t * step) [0 ..< nat ((start - stop - step - 1) div (- step))]))"

text \<open>A list comprehension whose element expression can raise: the first exception
  ends the comprehension.\<close>

fun map_err :: "('a \<Rightarrow> error + 'b) \<Rightarrow> 'a list \<Rightarrow> error + 'b list" where
  "map_err f [] = Inr []"
| "map_err f (x # xs) =
     (case f x of Inl e \<Rightarrow> Inl e
      | Inr y \<Rightarrow> (case map_err f xs of Inl e \<Rightarrow> Inl e | Inr ys \<Rightarrow> Inr (y # ys)))"

section \<open>Models: n-grams\<close>

text \<open>
  \<^verbatim>\<open>
  def n_gram(n, s):
      words = s.split(" ")
      ngrams = [words[i:i+n] for i in range(len(words)-(n-1))]
      return [" ".join(i) for i in ngrams]
  \<close>
\<close>

definition n_gram :: "int \<Rightarrow> string \<Rightarrow> string list" where
  "n_gram n s =
     (let words = split_sp s;
          ngrams = map (\<lambda>i. py_slice i (i + n) words) (py_range (int (length words) - (n - 1)))
      in map join_sp ngrams)"

text \<open>
  \<^verbatim>\<open>
  def skip_gram(k, n, s):
      words = s.split(" ")
      sgrams = [list([words[i]]) + [words[i+k+j] for j in range(1,n+k,k+1)]
                for i in range(len(words)-((1+k)*(n-1)))]
      return [" ".join(i) for i in sgrams]
  \<close>
  The indexing \<open>words[...]\<close> and the three-argument \<open>range\<close> can raise.
\<close>

definition skip_gram_at :: "int \<Rightarrow> int \<Rightarrow> string list \<Rightarrow> int \<Rightarrow> error + string list" where
  "skip_gram_at k n words i =
     (case py_index words i of Inl e \<Rightarrow> Inl e
      | Inr w \<Rightarrow>
         (case py_range3 1 (n + k) (k + 1) of Inl e \<Rightarrow> Inl e
          | Inr js \<Rightarrow>
             (case map_err (\<lambda>j. py_index words (i + k + j)) js of Inl e \<Rightarrow> Inl e
              | Inr ws \<Rightarrow> Inr (w # ws))))"

definition skip_gram :: "int \<Rightarrow> int \<Rightarrow> string \<Rightarrow> error + string list" where
  "skip_gram k n s =
     (let words = split_sp s
      in case map_err (skip_gram_at k n words)
                (py_range (int (length words) - (1 + k) * (n - 1))) of
           Inl e \<Rightarrow> Inl e
         | Inr sgrams \<Rightarrow> Inr (map join_sp sgrams))"

section \<open>Token sets\<close>

text \<open>
  A token set is a Python \<open>dict\<close> from token to count. A \<open>dict\<close> keeps its keys
  unique and in insertion order, and \<open>sorted\<close> is stable on that order, so it is
  modelled as an association list whose keys are distinct. \<open>d[k] = v\<close> overwrites
  the value of a present key in place and appends an absent one; \<open>k in d\<close> and
  \<open>d[k]\<close> are \<^const>\<open>map_of\<close>; two dicts are \<open>==\<close> when they have the same keys
  with the same values, in any order.
\<close>

type_synonym tokenset = "(string \<times> int) list"

fun dict_set :: "'k \<Rightarrow> 'v \<Rightarrow> ('k \<times> 'v) list \<Rightarrow> ('k \<times> 'v) list" where
  "dict_set k v [] = [(k, v)]"
| "dict_set k v (kv # d) = (if fst kv = k then (k, v) # d else kv # dict_set k v d)"

definition dict_eq :: "('k \<times> 'v) list \<Rightarrow> ('k \<times> 'v) list \<Rightarrow> bool" where
  "dict_eq a b \<longleftrightarrow> set a = set b"

text \<open>
  \<^verbatim>\<open>
  def merge_tokens(a,b):
      new_tokens = {}
      for k,v in a.items():
          if k in b:
              new_tokens[k] = b[k] + v
          else:
              new_tokens[k] = v
      for k,v in b.items():
          if k in a:
              new_tokens[k] = a[k] + v
          else:
              new_tokens[k] = v
      return new_tokens
  \<close>
  \<open>merge_loop other d new_tokens\<close> is one of the two loops: it runs over the items of
  \<open>d\<close> and looks each key up in \<open>other\<close>.
\<close>

fun merge_loop :: "tokenset \<Rightarrow> tokenset \<Rightarrow> tokenset \<Rightarrow> tokenset" where
  "merge_loop other [] new_tokens = new_tokens"
| "merge_loop other ((k, v) # d) new_tokens =
     merge_loop other d
       (case map_of other k of
          Some u \<Rightarrow> dict_set k (u + v) new_tokens
        | None \<Rightarrow> dict_set k v new_tokens)"

definition merge_tokens :: "tokenset \<Rightarrow> tokenset \<Rightarrow> tokenset" where
  "merge_tokens a b = merge_loop a b (merge_loop b a [])"

section \<open>Term statistics\<close>

text \<open>
  \<^verbatim>\<open>
  def tfidf(term, doc, docs):
      tf = float(doc.count(term))/len(doc)
      idf = math.log(1.0 + (float(len(docs))/(len([d for d in docs if term in d]))))
      return tf*idf
  \<close>
  The two divisions raise \<open>ZeroDivisionError\<close> on a zero divisor, in this order. The
  float arithmetic is modelled by the real numbers it approximates; rounding is not
  modelled.
\<close>

definition tfidf :: "string \<Rightarrow> string list \<Rightarrow> string list list \<Rightarrow> error + real" where
  "tfidf term doc docs =
     (if length doc = 0 then Inl ZeroDivisionError
      else
        let tf = real (count_list doc term) / real (length doc);
            containing = filter (\<lambda>d. term \<in> set d) docs
        in if length containing = 0 then Inl ZeroDivisionError
           else
             let idf = ln (1 + real (length docs) / real (length containing))
             in Inr (tf * idf))"

section \<open>Next-word prediction\<close>

text \<open>
  \<^verbatim>\<open>
  def bigram_predict(t, s):
      start_word = (s.split(" "))[-1]
      token_tuples = sorted(t.items(), key=lambda x: -x[1])
      next_word = ''
      for i in token_tuples:
          ngram = i[0].split(" ")
          if start_word == ngram[-2]:
              next_word = ngram[-1]
              break
      return next_word
  \<close>
  \<open>sorted\<close> is a stable sort, as \<^const>\<open>sort_key\<close> is. \<open>scan_tokens\<close> is the loop.
\<close>

fun scan_tokens :: "string \<Rightarrow> tokenset \<Rightarrow> error + string" where
  "scan_tokens start_word [] = Inr []"
| "scan_tokens start_word (i # rest) =
     (let ngram = split_sp (fst i)
      in case py_index ngram (- 2) of Inl e \<Rightarrow> Inl e
         | Inr w \<Rightarrow>
             if start_word = w then py_index ngram (- 1)
             else scan_tokens start_word rest)"

definition bigram_predict :: "tokenset \<Rightarrow> string \<Rightarrow> error + string" where
  "bigram_predict t s =
     (case py_index (split_sp s) (- 1) of Inl e \<Rightarrow> Inl e
      | Inr start_word \<Rightarrow> scan_tokens start_word (sort_key (\<lambda>x. - snd x) t))"

section \<open>Co-occurrence counts\<close>

text \<open>
  \<^verbatim>\<open>
  def get_cooccurance_count(window, target, neighbor, sentences):
      count = 0
      for s in sentences:
          count += sum((s[i-window:i]+s[i+1:i+1+window]).count(neighbor)
                       for i,w in enumerate(s) if w == target)
      return count
  \<close>
\<close>

definition sentence_count :: "int \<Rightarrow> string \<Rightarrow> string \<Rightarrow> string list \<Rightarrow> int" where
  "sentence_count window target neighbor s =
     sum_list (map (\<lambda>(i, w). int (count_list
                       (py_slice (int i - window) (int i) s
                          @ py_slice (int i + 1) (int i + 1 + window) s) neighbor))
                 (filter (\<lambda>(i, w). w = target) (List.enumerate 0 s)))"

definition get_cooccurance_count :: "int \<Rightarrow> string \<Rightarrow> string \<Rightarrow> string list list \<Rightarrow> int" where
  "get_cooccurance_count window target neighbor sentences =
     fold (\<lambda>s count. count + sentence_count window target neighbor s) sentences 0"

text \<open>
  \<^verbatim>\<open>
  def build_cooccurance_matrix(window, tokens, sentences):
      m = np.zeros((len(tokens),len(tokens)))
      for i,token_i in enumerate(tokens):
          for j,token_j in enumerate(tokens):
              m[i][j] = get_cooccurance_count(window, token_i,token_j, sentences)
      return m
  \<close>
  \<open>np\<close> is taken to be numpy (the module never imports it). The matrix is a list of
  rows; its cells hold the counts, which the array stores as floats of the same value.
\<close>

definition build_cooccurance_matrix :: "int \<Rightarrow> string list \<Rightarrow> string list list \<Rightarrow> int list list" where
  "build_cooccurance_matrix window tokens sentences =
     map (\<lambda>token_i. map (\<lambda>token_j. get_cooccurance_count window token_i token_j sentences) tokens)
       tokens"

text \<open>
  The count as the specification words it: for every sentence and every position \<open>i\<close>
  holding the target, the occurrences of the neighbor at the positions of
  \<open>[i - window, i)\<close> and \<open>(i, i + window]\<close> that exist in the sentence.
\<close>

definition clipped_window_count :: "int \<Rightarrow> string \<Rightarrow> string \<Rightarrow> string list list \<Rightarrow> int" where
  "clipped_window_count window target neighbor sentences =
     sum_list (map (\<lambda>s.
        sum_list (map (\<lambda>i.
           if s ! i = target
           then int (length (filter (\<lambda>j. j \<noteq> i \<and> int i - window \<le> int j \<and> int j \<le> int i + window
                                           \<and> s ! j = neighbor) [0 ..< length s]))
           else 0) [0 ..< length s])) sentences)"

section \<open>Regular expressions of Python's \<open>re\<close> module\<close>

text \<open>
  The normalizer and the stemmer are written with \<open>re.sub\<close>, \<open>re.match\<close> and
  \<open>re.findall\<close>. Their patterns are kept as data and run by a backtracking matcher with
  the priorities of \<open>re\<close>: alternatives left to right, a greedy repetition tries one
  more round first, a lazy one tries to stop first.

  Characters are the code points below 256. A position in the subject string is the pair
  of the text before it, reversed, and the text after it.
\<close>

datatype regex =
    Chr char                  \<comment> \<open>a literal character\<close>
  | Cls "char \<Rightarrow> bool"        \<comment> \<open>a character class, \<open>.\<close> included\<close>
  | Eps                       \<comment> \<open>the empty pattern\<close>
  | Seq regex regex
  | Alt regex regex           \<comment> \<open>\<open>r|s\<close>\<close>
  | Star regex                \<comment> \<open>\<open>r*\<close>, greedy\<close>
  | Lazy regex                \<comment> \<open>\<open>r*?\<close>\<close>
  | Bol                       \<comment> \<open>\<open>^\<close>\<close>
  | Eol                       \<comment> \<open>\<open>$\<close>\<close>
  | Behind "char \<Rightarrow> bool"     \<comment> \<open>\<open>(?<=[...])\<close>, a lookbehind of one character\<close>

type_synonym pos = "string \<times> string"

definition Plus :: "regex \<Rightarrow> regex" where
  "Plus r = Seq r (Star r)"

definition Opt :: "regex \<Rightarrow> regex" where
  "Opt r = Alt r Eps"

fun lit :: "string \<Rightarrow> regex" where
  "lit [] = Eps"
| "lit [c] = Chr c"
| "lit (c # cs) = Seq (Chr c) (lit cs)"

fun alts :: "regex list \<Rightarrow> regex" where
  "alts [] = Eps"
| "alts [r] = r"
| "alts (r # rs) = Alt r (alts rs)"

definition code :: "char \<Rightarrow> nat" where
  "code c = of_char c"

definition upper_AZ :: "char \<Rightarrow> bool" where    \<comment> \<open>\<open>[A-Z]\<close>\<close>
  "upper_AZ c \<longleftrightarrow> 65 \<le> code c \<and> code c \<le> 90"

definition lower_az :: "char \<Rightarrow> bool" where    \<comment> \<open>\<open>[a-z]\<close>\<close>
  "lower_az c \<longleftrightarrow> 97 \<le> code c \<and> code c \<le> 122"

definition digit_09 :: "char \<Rightarrow> bool" where    \<comment> \<open>\<open>[0-9]\<close>, and \<open>\d\<close> below 256\<close>
  "digit_09 c \<longleftrightarrow> 48 \<le> code c \<and> code c \<le> 57"

definition letter :: "char \<Rightarrow> bool" where      \<comment> \<open>\<open>[A-Za-z]\<close>\<close>
  "letter c \<longleftrightarrow> upper_AZ c \<or> lower_az c"

definition alnum :: "char \<Rightarrow> bool" where       \<comment> \<open>\<open>[A-Za-z0-9]\<close>\<close>
  "alnum c \<longleftrightarrow> letter c \<or> digit_09 c"

definition space :: "char \<Rightarrow> bool" where       \<comment> \<open>\<open>\s\<close>: the Unicode white space below 256\<close>
  "space c \<longleftrightarrow> (9 \<le> code c \<and> code c \<le> 13) \<or> (28 \<le> code c \<and> code c \<le> 32)
                \<or> code c = 133 \<or> code c = 160"

definition word_char :: "char \<Rightarrow> bool" where   \<comment> \<open>\<open>\w\<close>: Unicode alphanumerics below 256, and \<open>_\<close>\<close>
  "word_char c \<longleftrightarrow> alnum c \<or> code c = 95
      \<or> code c \<in> {170, 178, 179, 181, 185, 186, 188, 189, 190}
      \<or> (192 \<le> code c \<and> code c \<noteq> 215 \<and> code c \<noteq> 247)"

definition dot :: "char \<Rightarrow> bool" where         \<comment> \<open>\<open>.\<close>: anything but a newline\<close>
  "dot c \<longleftrightarrow> c \<noteq> CHR 0x0A"

text \<open>Repetition: each round has to consume at least one character, so the number of
  rounds is bounded by the length of the text that is left.\<close>

fun greedy :: "(pos \<Rightarrow> pos list) \<Rightarrow> nat \<Rightarrow> pos \<Rightarrow> pos list" where
  "greedy f 0 st = [st]"
| "greedy f (Suc n) st =
     concat (map (greedy f n) (filter (\<lambda>st'. length (snd st') < length (snd st)) (f st))) @ [st]"

fun lazy :: "(pos \<Rightarrow> pos list) \<Rightarrow> nat \<Rightarrow> pos \<Rightarrow> pos list" where
  "lazy f 0 st = [st]"
| "lazy f (Suc n) st =
     st # concat (map (lazy f n) (filter (\<lambda>st'. length (snd st') < length (snd st)) (f st)))"

text \<open>\<open>matches r st\<close>: the positions where a match of \<open>r\<close> that starts at \<open>st\<close> can end,
  in the order in which backtracking tries them. \<open>$\<close> matches at the end of the
  string and before a newline that ends the string.\<close>

fun matches :: "regex \<Rightarrow> pos \<Rightarrow> pos list" where
  "matches (Chr c) st =
     (case snd st of [] \<Rightarrow> [] | x # xs \<Rightarrow> if x = c then [(x # fst st, xs)] else [])"
| "matches (Cls P) st =
     (case snd st of [] \<Rightarrow> [] | x # xs \<Rightarrow> if P x then [(x # fst st, xs)] else [])"
| "matches Eps st = [st]"
| "matches (Seq r1 r2) st = concat (map (matches r2) (matches r1 st))"
| "matches (Alt r1 r2) st = matches r1 st @ matches r2 st"
| "matches (Star r) st = greedy (matches r) (length (snd st)) st"
| "matches (Lazy r) st = lazy (matches r) (length (snd st)) st"
| "matches Bol st = (if fst st = [] then [st] else [])"
| "matches Eol st = (if snd st = [] \<or> snd st = [CHR 0x0A] then [st] else [])"
| "matches (Behind P) st =
     (case fst st of [] \<Rightarrow> [] | x # xs \<Rightarrow> if P x then [st] else [])"

text \<open>\<open>pattern.match(s)\<close> as a truth value: is there a match that starts at the
  beginning of \<open>s\<close>?\<close>

definition re_match :: "regex \<Rightarrow> string \<Rightarrow> bool" where
  "re_match r s \<longleftrightarrow> matches r ([], s) \<noteq> []"

text \<open>
  \<open>re.sub(pattern, repl, s)\<close>, where \<open>repl\<close> maps the matched text to its replacement:
  scan from the left; where the pattern matches, emit the replacement of the first match
  in backtracking order and go on after it; elsewhere copy one character. Every pattern
  substituted in this module consumes at least one character; a match of no characters
  is treated as no match.
\<close>

function sub_from :: "regex \<Rightarrow> (string \<Rightarrow> string) \<Rightarrow> string \<Rightarrow> string \<Rightarrow> string" where
  "sub_from r repl seen [] = []"
| "sub_from r repl seen (x # xs) =
     (case matches r (seen, x # xs) of
        [] \<Rightarrow> x # sub_from r repl (x # seen) xs
      | st # _ \<Rightarrow>
          if length (snd st) < length (x # xs)
          then repl (take (length (x # xs) - length (snd st)) (x # xs))
                 @ sub_from r repl (fst st) (snd st)
          else x # sub_from r repl (x # seen) xs)"
  by pat_completeness auto
termination
  by (relation "measure (\<lambda>(r, repl, seen, rest). length rest)") auto

definition re_sub :: "regex \<Rightarrow> (string \<Rightarrow> string) \<Rightarrow> string \<Rightarrow> string" where
  "re_sub r repl s = sub_from r repl [] s"

text \<open>\<open>str.upper\<close> and \<open>str.lower\<close>; they are only applied to matches made of ASCII
  letters, digits and white space.\<close>

definition upper_char :: "char \<Rightarrow> char" where
  "upper_char c = (if lower_az c then char_of (code c - 32) else c)"

definition lower_char :: "char \<Rightarrow> char" where
  "lower_char c = (if upper_AZ c then char_of (code c + 32) else c)"

definition upper :: "string \<Rightarrow> string" where
  "upper = map upper_char"

definition lower :: "string \<Rightarrow> string" where
  "lower = map lower_char"

fun seqs :: "regex list \<Rightarrow> regex" where
  "seqs [] = Eps"
| "seqs [r] = r"
| "seqs (r # rs) = Seq r (seqs rs)"

section \<open>Normalizer\<close>

text \<open>
  \<^verbatim>\<open>
  def expand(s):
      s = re.sub(r'[Ii]t\'s', 'it is', s)
      s = re.sub(r'\'ve', ' have', s)
      s = re.sub(r'n\'t', ' not',s)
      s = re.sub(r'\'ll', ' will',s)
      s = re.sub(r'\'m', ' am', s)
      s = re.sub(r'\'re', ' are', s)
      s = re.sub(r'\'tis', 'it is',s)
      s = re.sub(r'\'twas', 'it was',s)
      s = re.sub(r'let\'s', 'let us', s)
      s = re.sub(r'shan\'t', 'shall not', s)
      s = re.sub(r'G\'day', 'Good day', s)
      s = re.sub(r'who\'s', 'who is',s)
      s = re.sub(r'where\'s', 'where is',s)
      s = re.sub(r'what\'s', 'what is',s)
      s = re.sub(r'why\'s', 'why is',s)
      s = re.sub(r'that\'s', 'that is',s)
      s = re.sub(r'there\'s', 'there is', s)
      s = re.sub(r'someone\'s', 'someone is',s)
      s = re.sub(r'somebody\'s', 'somebody is',s)
      s = re.sub(r'something\'s', 'something is',s)
      s = re.sub(r'he\'s', 'he is',s)
      s = re.sub(r'o\'clock', 'of the clock',s)
      s = re.sub(r'ain\'t', 'am not', s)
      return s
  \<close>
  The table of the passes, in this order; \<open>expand\<close> runs them one after the other.
\<close>

definition apos :: char where
  "apos = CHR 0x27"

definition contractions :: "(regex \<times> string) list" where
  "contractions =
    [(Seq (Cls (\<lambda>c. c = CHR ''I'' \<or> c = CHR ''i'')) (lit (''t'' @ apos # ''s'')), ''it is''),
     (lit (apos # ''ve''), '' have''),
     (lit (''n'' @ apos # ''t''), '' not''),
     (lit (apos # ''ll''), '' will''),
     (lit (apos # ''m''), '' am''),
     (lit (apos # ''re''), '' are''),
     (lit (apos # ''tis''), ''it is''),
     (lit (apos # ''twas''), ''it was''),
     (lit (''let'' @ apos # ''s''), ''let us''),
     (lit (''shan'' @ apos # ''t''), ''shall not''),
     (lit (''G'' @ apos # ''day''), ''Good day''),
     (lit (''who'' @ apos # ''s''), ''who is''),
     (lit (''where'' @ apos # ''s''), ''where is''),
     (lit (''what'' @ apos # ''s''), ''what is''),
     (lit (''why'' @ apos # ''s''), ''why is''),
     (lit (''that'' @ apos # ''s''), ''that is''),
     (lit (''there'' @ apos # ''s''), ''there is''),
     (lit (''someone'' @ apos # ''s''), ''someone is''),
     (lit (''somebody'' @ apos # ''s''), ''somebody is''),
     (lit (''something'' @ apos # ''s''), ''something is''),
     (lit (''he'' @ apos # ''s''), ''he is''),
     (lit (''o'' @ apos # ''clock''), ''of the clock''),
     (lit (''ain'' @ apos # ''t''), ''am not'')]"

definition expand :: "string \<Rightarrow> string" where
  "expand s = fold (\<lambda>(pat, repl) s. re_sub pat (\<lambda>_. repl) s) contractions s"

text \<open>
  \<^verbatim>\<open>
  def standardize_abbreviations(s):
      s = re.sub(r'(?<=[A-Z])\.', '', s)
      s = re.sub(r'(?<=[A-Z])\-', '', s)
      s = re.sub(r'(?<=[a-z])\-', '', s)
      s = re.sub(r'[A-Z]*[a-z]*[0-9]+', lambda x: x.group().upper(), s)
      return s
  \<close>
\<close>

definition standardize_abbreviations :: "string \<Rightarrow> string" where
  "standardize_abbreviations s0 =
     (let s1 = re_sub (Seq (Behind upper_AZ) (Chr CHR ''.'')) (\<lambda>_. []) s0;
          s2 = re_sub (Seq (Behind upper_AZ) (Chr CHR ''-'')) (\<lambda>_. []) s1;
          s3 = re_sub (Seq (Behind lower_az) (Chr CHR ''-'')) (\<lambda>_. []) s2
      in re_sub (seqs [Star (Cls upper_AZ), Star (Cls lower_az), Plus (Cls digit_09)]) upper s3)"

text \<open>
  \<^verbatim>\<open>
  def remove_numbers(s):
      s = re.sub(r"(\s\d+\s)+", " ",s)
      s = re.sub(r"^\d+\s", " ", s)
      s = re.sub(r"\s[-+]*\d+\s", " ", s) # ints
      s = re.sub(r"\s[-+]*\d+\.\d+[\W]", " ", s) # floats
      return s
  \<close>
\<close>

definition sign :: "char \<Rightarrow> bool" where      \<comment> \<open>\<open>[-+]\<close>\<close>
  "sign c \<longleftrightarrow> c = CHR ''-'' \<or> c = CHR ''+''"

definition remove_numbers :: "string \<Rightarrow> string" where
  "remove_numbers s0 =
     (let s1 = re_sub (Plus (seqs [Cls space, Plus (Cls digit_09), Cls space])) (\<lambda>_. '' '') s0;
          s2 = re_sub (seqs [Bol, Plus (Cls digit_09), Cls space]) (\<lambda>_. '' '') s1;
          s3 = re_sub (seqs [Cls space, Star (Cls sign), Plus (Cls digit_09), Cls space])
                 (\<lambda>_. '' '') s2
      in re_sub (seqs [Cls space, Star (Cls sign), Plus (Cls digit_09), Chr CHR ''.'',
                       Plus (Cls digit_09), Cls (\<lambda>c. \<not> word_char c)])
           (\<lambda>_. '' '') s3)"

text \<open>
  \<^verbatim>\<open>
  def lowercase(s):
      s = re.sub(r'[A-Z][a-z]+', lambda x: x.group().lower(), s)
      s = re.sub(r'^[A-Z]\s', lambda x: x.group().lower(), s)
      return s

  def uppercase_i(s):
      s = re.sub(r'^i\s+', lambda x: x.group().upper(), s)
      s = re.sub(r'\s+i\s+', lambda x: x.group().upper(), s)
      return s

  def remove_punctuation(s):
      s = re.sub(r'[^A-Za-z0-9]+', ' ', s)
      return s
  \<close>
\<close>

definition lowercase :: "string \<Rightarrow> string" where
  "lowercase s0 =
     (let s1 = re_sub (Seq (Cls upper_AZ) (Plus (Cls lower_az))) lower s0
      in re_sub (seqs [Bol, Cls upper_AZ, Cls space]) lower s1)"

definition uppercase_i :: "string \<Rightarrow> string" where
  "uppercase_i s0 =
     (let s1 = re_sub (seqs [Bol, Chr CHR ''i'', Plus (Cls space)]) upper s0
      in re_sub (seqs [Plus (Cls space), Chr CHR ''i'', Plus (Cls space)]) upper s1)"

definition remove_punctuation :: "string \<Rightarrow> string" where
  "remove_punctuation s = re_sub (Plus (Cls (\<lambda>c. \<not> alnum c))) (\<lambda>_. '' '') s"

text \<open>
  The normalizer is the pipeline that \<open>tokenize\<close> runs before it filters, stems and
  counts:
  \<^verbatim>\<open>
  def tokenize(s, n=1, removing_stopwords=False, stemming=False):
      s = expand(s)
      s = standardize_abbreviations(s)
      s = remove_numbers(s)
      s = lowercase(s)
      s = uppercase_i(s)
      s = remove_punctuation(s)
      ...
  \<close>
\<close>

definition normalize :: "string \<Rightarrow> string" where
  "normalize s =
     remove_punctuation (uppercase_i (lowercase (remove_numbers
       (standardize_abbreviations (expand s)))))"

section \<open>Stemmer\<close>

text \<open>
  \<^verbatim>\<open>
  def stem(word):
      exceptions_ing = re.compile(r"""[A-Za-z]ing|[A-Za-z].ing|
                                   [Ss]omething|[Nn]othing|[Dd]uring|[Ee]vening|[Mm]orning|
                                   [Ss]tring|[Cc]eiling|[Ss]terling|[Cc]ling|[Gg]osling|
                                   [Ii]cing|[Ss]hilling|[Ss]ting|[Vv]iking|[Ff]iling|[Cc]arling""", re.X)
      if exceptions_ing.match(word):
          return word
      else:
         regex = r'^(.*?)(ies|es|s|ed|ing|ative|ive|ious|ously|ally|ly|ment)?$'
         stem, _suffix = re.findall(regex, word)[0]
         return stem
  \<close>
  Under \<open>re.X\<close> the white space inside the pattern is not part of it.
  \<open>either c d rest\<close> is \<open>[cd]rest\<close>.
\<close>

definition either :: "char \<Rightarrow> char \<Rightarrow> string \<Rightarrow> regex" where
  "either c d rest = Seq (Cls (\<lambda>x. x = c \<or> x = d)) (lit rest)"

definition exceptions_ing :: regex where
  "exceptions_ing = alts
    [Seq (Cls letter) (lit ''ing''),
     seqs [Cls letter, Cls dot, lit ''ing''],
     either CHR ''S'' CHR ''s'' ''omething'', either CHR ''N'' CHR ''n'' ''othing'',
     either CHR ''D'' CHR ''d'' ''uring'', either CHR ''E'' CHR ''e'' ''vening'',
     either CHR ''M'' CHR ''m'' ''orning'', either CHR ''S'' CHR ''s'' ''tring'',
     either CHR ''C'' CHR ''c'' ''eiling'', either CHR ''S'' CHR ''s'' ''terling'',
     either CHR ''C'' CHR ''c'' ''ling'', either CHR ''G'' CHR ''g'' ''osling'',
     either CHR ''I'' CHR ''i'' ''cing'', either CHR ''S'' CHR ''s'' ''hilling'',
     either CHR ''S'' CHR ''s'' ''ting'', either CHR ''V'' CHR ''v'' ''iking'',
     either CHR ''F'' CHR ''f'' ''iling'', either CHR ''C'' CHR ''c'' ''arling'']"

definition suffixes :: "string list" where
  "suffixes = [''ies'', ''es'', ''s'', ''ed'', ''ing'', ''ative'', ''ive'', ''ious'', ''ously'',
               ''ally'', ''ly'', ''ment'']"

text \<open>
  The pattern has no match unless one starts at the beginning of the word, and
  \<open>findall(...)[0]\<close> raises when there is none. In backtracking order the lazy first
  group \<open>(.*?)\<close> grows one character at a time, and the first of its ends from which
  \<open>(ies|...|ment)?$\<close> matches is the end of the stem.
\<close>

definition stem :: "string \<Rightarrow> error + string" where
  "stem word =
     (if re_match exceptions_ing word then Inr word
      else
        (case filter (\<lambda>st. matches (Seq (Opt (alts (map lit suffixes))) Eol) st \<noteq> [])
                (matches (Seq Bol (Lazy (Cls dot))) ([], word)) of
           [] \<Rightarrow> Inl IndexError
         | st # _ \<Rightarrow> Inr (rev (fst st))))"

section \<open>Definitions used to state the properties\<close>

text \<open>The count of a key in a token set, 0 when the key is absent.\<close>

definition count_of :: "tokenset \<Rightarrow> string \<Rightarrow> int" where
  "count_of d k = (case map_of d k of None \<Rightarrow> 0 | Some v \<Rightarrow> v)"

text \<open>The last word and the word before it of a key.\<close>

definition last_word :: "string \<Rightarrow> string" where
  "last_word k = last (split_sp k)"

definition second_last_word :: "string \<Rightarrow> string" where
  "second_last_word k = split_sp k ! (length (split_sp k) - 2)"

text \<open>The words that the specification lists as exceptions of the stemmer, and the same
  words with a capital first letter.\<close>

definition listed_exceptions :: "string list" where
  "listed_exceptions =
     [''something'', ''nothing'', ''during'', ''evening'', ''morning'', ''string'', ''ceiling'',
      ''sterling'', ''cling'', ''gosling'', ''icing'', ''shilling'', ''sting'', ''viking'',
      ''filing'', ''carling'']"

definition capitalized :: "string \<Rightarrow> string" where
  "capitalized w = (case w of [] \<Rightarrow> [] | c # cs \<Rightarrow> upper_char c # cs)"

definition starts_with :: "string \<Rightarrow> string \<Rightarrow> bool" where
  "starts_with p w \<longleftrightarrow> take (length p) w = p"

definition ends_in_ing :: "string \<Rightarrow> bool" where
  "ends_in_ing w \<longleftrightarrow> 3 \<le> length w \<and> drop (length w - 3) w = ''ing''"

text \<open>The exception set as the specification words it: a listed word, or a word whose
  last letters are \<open>ing\<close>.\<close>

definition spec_exception :: "string \<Rightarrow> bool" where
  "spec_exception w \<longleftrightarrow> w \<in> set listed_exceptions \<or> ends_in_ing w"

text \<open>The words at whose beginning \<open>exceptions_ing\<close> matches: a letter and \<open>ing\<close>, a
  letter, one more character that is not a newline and \<open>ing\<close>, or a listed word.\<close>

definition exception_prefix :: "string \<Rightarrow> bool" where
  "exception_prefix w \<longleftrightarrow>
     (4 \<le> length w \<and> letter (w ! 0) \<and> take 3 (drop 1 w) = ''ing'')
   \<or> (5 \<le> length w \<and> letter (w ! 0) \<and> dot (w ! 1) \<and> take 3 (drop 2 w) = ''ing'')
   \<or> list_ex (\<lambda>x. starts_with x w) (listed_exceptions @ map capitalized listed_exceptions)"

text \<open>The short words in \<open>ing\<close>: a letter and \<open>ing\<close> (sing, king), or a letter, one
  more character that is not a newline, and \<open>ing\<close> (thing, bring).\<close>

definition short_ing_word :: "string \<Rightarrow> bool" where
  "short_ing_word w \<longleftrightarrow>
     (length w = 4 \<and> letter (w ! 0) \<and> drop 1 w = ''ing'')
   \<or> (length w = 5 \<and> letter (w ! 0) \<and> dot (w ! 1) \<and> drop 2 w = ''ing'')"

text \<open>The clipped count of one sentence, as a sum over the pairs of positions.\<close>

definition clipped_sentence_count :: "int \<Rightarrow> string \<Rightarrow> string \<Rightarrow> string list \<Rightarrow> int" where
  "clipped_sentence_count w a b s =
     (\<Sum>i = 0 ..< length s. \<Sum>j = 0 ..< length s.
        if s ! i = a \<and> s ! j = b \<and> j \<noteq> i \<and> int i - w \<le> int j \<and> int j \<le> int i + w then 1 else 0)"

section \<open>Properties of the n-gram model\<close>

lemma split_sp_nonempty: "split_sp s \<noteq> []"
  by (induction s) (auto split: list.splits)

lemma split_sp_no_space: "w \<in> set (split_sp s) \<Longrightarrow> CHR '' '' \<notin> set w"
  by (induction s arbitrary: w) (auto split: list.splits if_splits)

lemma split_sp_append_word:
  "CHR '' '' \<notin> set w \<Longrightarrow> split_sp (w @ CHR '' '' # s) = w # split_sp s"
  by (induction w) (auto split: list.splits)

lemma split_sp_word: "CHR '' '' \<notin> set w \<Longrightarrow> split_sp w = [w]"
  by (induction w) (auto split: list.splits)

lemma split_join_sp:
  "ws \<noteq> [] \<Longrightarrow> \<forall>w\<in>set ws. CHR '' '' \<notin> set w \<Longrightarrow> split_sp (join_sp ws) = ws"
  by (induction ws rule: join_sp.induct) (auto simp: split_sp_word split_sp_append_word)

lemma py_slice_window:
  "0 \<le> i \<Longrightarrow> 0 \<le> n \<Longrightarrow> py_slice i (i + n) xs = take (nat n) (drop (nat i) xs)"
  by (auto simp: py_slice_def slice_bound_def Let_def min_def nat_add_distrib)

text \<open>
  C4. For \<open>n \<ge> 1\<close>, \<open>n_gram n text\<close> is the list of the contiguous windows of \<open>n\<close>
  words of the text split at single spaces, from left to right, each joined by a single
  space; there are \<open>max(0, L - n + 1)\<close> of them for \<open>L\<close> words (none when \<open>L < n\<close>),
  and each splits back into exactly \<open>n\<close> words. The empty text has the one word \<open>""\<close>.
\<close>

theorem n_gram_windows:
  assumes "1 \<le> n"
  shows "n_gram n text =
           map (\<lambda>i. join_sp (take (nat n) (drop i (split_sp text))))
               [0 ..< length (split_sp text) + 1 - nat n]
       \<and> length (n_gram n text) = nat (max 0 (int (length (split_sp text)) - n + 1))
       \<and> (\<forall>g \<in> set (n_gram n text). length (split_sp g) = nat n)"
proof -
  let ?ws = "split_sp text"
  let ?L = "length ?ws"
  have rng: "py_range (int ?L - (n - 1)) = map int [0 ..< ?L + 1 - nat n]"
  proof -
    have "nat (int ?L - (n - 1)) = ?L + 1 - nat n" using assms by arith
    then show ?thesis by (simp add: py_range_def)
  qed
  have eq: "n_gram n text = map (\<lambda>i. join_sp (take (nat n) (drop i ?ws))) [0 ..< ?L + 1 - nat n]"
    using assms unfolding n_gram_def Let_def rng by (simp add: py_slice_window comp_def)
  have len: "length (n_gram n text) = nat (max 0 (int ?L - n + 1))"
    using assms unfolding eq by auto
  have "length (split_sp g) = nat n" if "g \<in> set (n_gram n text)" for g
  proof -
    from that obtain i where i: "i < ?L + 1 - nat n" and g: "g = join_sp (take (nat n) (drop i ?ws))"
      unfolding eq by auto
    let ?w = "take (nat n) (drop i ?ws)"
    have l: "length ?w = nat n" using i by simp
    have ne: "?w \<noteq> []" using l assms by auto
    have "\<forall>w\<in>set ?w. CHR '' '' \<notin> set w"
      using split_sp_no_space by (meson in_set_dropD in_set_takeD)
    then show ?thesis using split_join_sp [OF ne] l g by simp
  qed
  with eq len show ?thesis by blast
qed

theorem n_gram_windows_witness:
  "(1::int) \<le> 2
   \<and> n_gram 2 ''the rain in Spain'' = [''the rain'', ''rain in'', ''in Spain'']
   \<and> length (n_gram 2 ''the rain in Spain'') = 3
   \<and> map (\<lambda>g. length (split_sp g)) (n_gram 2 ''the rain in Spain'') = [2, 2, 2]"
proof -
  have h: "(1::int) \<le> 2" by simp
  have ws: "split_sp ''the rain in Spain'' = [''the'', ''rain'', ''in'', ''Spain'']"
    by code_simp
  have "[0 ..< 3] = [0, 1, Suc 1]" by code_simp
  with n_gram_windows [OF h, of "''the rain in Spain''"] show ?thesis
    unfolding ws by simp
qed

theorem n_gram_empty_text: "n_gram 1 [] = [[]] \<and> n_gram 2 [] = []"
  by code_simp

section \<open>Properties of merge_tokens\<close>

lemma map_of_dict_set: "map_of (dict_set k v d) = (map_of d)(k \<mapsto> v)"
  by (induction d) (auto simp: fun_eq_iff)

lemma keys_dict_set: "fst ` set (dict_set k v d) = insert k (fst ` set d)"
  by (induction d) auto

lemma distinct_dict_set:
  "distinct (map fst d) \<Longrightarrow> distinct (map fst (dict_set k v d))"
proof (induction d)
  case Nil
  show ?case by simp
next
  case (Cons kv d)
  then show ?case using keys_dict_set [of k v d] by (auto simp del: keys_dict_set)
qed

lemma map_of_merge_loop:
  "distinct (map fst d) \<Longrightarrow>
   map_of (merge_loop other d new) k =
     (case map_of d k of
        Some v \<Rightarrow> Some (count_of other k + v)
      | None \<Rightarrow> map_of new k)"
proof (induction d arbitrary: new)
  case Nil
  show ?case by simp
next
  case (Cons kv d)
  obtain k' v' where kv: "kv = (k', v')" by (cases kv)
  from Cons.prems kv have d: "distinct (map fst d)" and nk: "k' \<notin> fst ` set d" by auto
  from nk have none: "map_of d k' = None" by (simp add: map_of_eq_None_iff)
  show ?case
    using none by (auto simp: kv Cons.IH [OF d] map_of_dict_set count_of_def split: option.splits)
qed

lemma keys_merge_loop:
  "fst ` set (merge_loop other d new) = fst ` set d \<union> fst ` set new"
proof (induction d arbitrary: new)
  case Nil
  show ?case by simp
next
  case (Cons kv d)
  obtain k v where kv: "kv = (k, v)" by (cases kv)
  show ?case
    by (cases "map_of other k") (simp_all add: kv Cons.IH keys_dict_set)
qed

lemma distinct_merge_loop:
  "distinct (map fst new) \<Longrightarrow> distinct (map fst (merge_loop other d new))"
  by (induction d arbitrary: new) (auto simp: distinct_dict_set split: option.splits)

lemma map_of_merge_tokens:
  assumes "distinct (map fst a)" "distinct (map fst b)"
  shows "map_of (merge_tokens a b) k =
           (if k \<in> fst ` set a \<union> fst ` set b then Some (count_of a k + count_of b k) else None)"
proof -
  have "map_of a k = None \<longleftrightarrow> k \<notin> fst ` set a" "map_of b k = None \<longleftrightarrow> k \<notin> fst ` set b"
    by (simp_all add: map_of_eq_None_iff)
  then show ?thesis
    unfolding merge_tokens_def
    by (auto simp: map_of_merge_loop assms count_of_def split: option.splits)
qed

lemma sum_values:
  "distinct (map fst d) \<Longrightarrow> sum_list (map snd d) = (\<Sum>k \<in> fst ` set d. count_of d k)"
proof (induction d)
  case Nil
  show ?case by simp
next
  case (Cons kv d)
  obtain k v where kv: "kv = (k, v)" by (cases kv)
  from Cons.prems kv have d: "distinct (map fst d)" and nk: "k \<notin> fst ` set d" by auto
  have "(\<Sum>x \<in> fst ` set d. count_of (kv # d) x) = (\<Sum>x \<in> fst ` set d. count_of d x)"
    using nk by (intro sum.cong) (auto simp: count_of_def kv)
  then show ?case using nk Cons.IH [OF d] by (simp add: kv count_of_def)
qed

lemma count_of_absent:
  assumes "k \<notin> fst ` set d"
  shows "count_of d k = 0"
proof -
  from assms have "map_of d k = None" by (simp add: map_of_eq_None_iff)
  then show ?thesis by (simp add: count_of_def)
qed

text \<open>
  C5. For token sets \<open>a\<close> and \<open>b\<close> (dicts: their keys are distinct),
  \<open>merge_tokens a b\<close> is again a dict, its keys are exactly the keys of \<open>a\<close> or \<open>b\<close>,
  each key maps to the sum of its counts in \<open>a\<close> and \<open>b\<close> (0 where absent), the merge
  is commutative as a dict, and the merged counts add up to the counts of \<open>a\<close> plus the
  counts of \<open>b\<close>.
\<close>

theorem merge_tokens_sums:
  assumes a: "distinct (map fst a)" and b: "distinct (map fst b)"
  shows "distinct (map fst (merge_tokens a b))
       \<and> fst ` set (merge_tokens a b) = fst ` set a \<union> fst ` set b
       \<and> (\<forall>k \<in> fst ` set a \<union> fst ` set b.
             map_of (merge_tokens a b) k = Some (count_of a k + count_of b k))
       \<and> dict_eq (merge_tokens a b) (merge_tokens b a)
       \<and> sum_list (map snd (merge_tokens a b)) = sum_list (map snd a) + sum_list (map snd b)"
proof -
  let ?A = "fst ` set a" and ?B = "fst ` set b"
  have dist: "distinct (map fst (merge_tokens x y))" for x y
    unfolding merge_tokens_def by (intro distinct_merge_loop) simp
  have keys: "fst ` set (merge_tokens a b) = ?A \<union> ?B"
    unfolding merge_tokens_def by (auto simp: keys_merge_loop)
  have look: "\<forall>k \<in> ?A \<union> ?B. map_of (merge_tokens a b) k = Some (count_of a k + count_of b k)"
    by (simp add: map_of_merge_tokens [OF a b])
  have "map_of (merge_tokens a b) = map_of (merge_tokens b a)"
    by (rule ext) (auto simp: map_of_merge_tokens [OF a b] map_of_merge_tokens [OF b a])
  then have eq: "dict_eq (merge_tokens a b) (merge_tokens b a)"
    unfolding dict_eq_def using map_of_inject_set [OF dist dist] by blast
  have cnt: "count_of (merge_tokens a b) k = count_of a k + count_of b k" for k
    by (simp add: count_of_def [of "merge_tokens a b"] map_of_merge_tokens [OF a b]
          count_of_absent)
  have "sum_list (map snd (merge_tokens a b)) = (\<Sum>k \<in> ?A \<union> ?B. count_of a k + count_of b k)"
    by (simp add: sum_values [OF dist] keys cnt)
  also have "\<dots> = (\<Sum>k \<in> ?A \<union> ?B. count_of a k) + (\<Sum>k \<in> ?A \<union> ?B. count_of b k)"
    by (simp add: sum.distrib)
  also have "(\<Sum>k \<in> ?A \<union> ?B. count_of a k) = (\<Sum>k \<in> ?A. count_of a k)"
    by (rule sum.mono_neutral_right) (auto simp: count_of_absent)
  also have "(\<Sum>k \<in> ?A \<union> ?B. count_of b k) = (\<Sum>k \<in> ?B. count_of b k)"
    by (rule sum.mono_neutral_right) (auto simp: count_of_absent)
  finally have "sum_list (map snd (merge_tokens a b)) = sum_list (map snd a) + sum_list (map snd b)"
    by (simp add: sum_values [OF a] sum_values [OF b])
  with dist keys look eq show ?thesis by blast
qed

theorem merge_tokens_sums_witness:
  "distinct (map fst [(''a'', 1::int), (''b'', 2)]) \<and> distinct (map fst [(''b'', 3::int), (''c'', 4)])
   \<and> merge_tokens [(''a'', 1), (''b'', 2)] [(''b'', 3), (''c'', 4)] = [(''a'', 1), (''b'', 5), (''c'', 4)]
   \<and> merge_tokens [(''b'', 3), (''c'', 4)] [(''a'', 1), (''b'', 2)] = [(''b'', 5), (''c'', 4), (''a'', 1)]
   \<and> dict_eq (merge_tokens [(''a'', 1), (''b'', 2)] [(''b'', 3), (''c'', 4)])
         (merge_tokens [(''b'', 3), (''c'', 4)] [(''a'', 1), (''b'', 2)])
   \<and> sum_list (map snd (merge_tokens [(''a'', 1), (''b'', 2)] [(''b'', 3), (''c'', 4)]))
       = sum_list (map snd [(''a'', 1::int), (''b'', 2)]) + sum_list (map snd [(''b'', 3::int), (''c'', 4)])"
proof -
  have a: "distinct (map fst [(''a'', 1::int), (''b'', 2)])" by simp
  have b: "distinct (map fst [(''b'', 3::int), (''c'', 4)])" by simp
  have ab: "merge_tokens [(''a'', 1), (''b'', 2)] [(''b'', 3), (''c'', 4)] = [(''a'', 1), (''b'', 5), (''c'', 4)]"
    by code_simp
  have ba: "merge_tokens [(''b'', 3), (''c'', 4)] [(''a'', 1), (''b'', 2)] = [(''b'', 5), (''c'', 4), (''a'', 1)]"
    by code_simp
  from merge_tokens_sums [OF a b] a b ab ba show ?thesis by blast
qed

section \<open>Properties of the co-occurrence counts\<close>

lemma length_filter_upt_sum:
  "int (length (filter P [0 ..< n])) = (\<Sum>j = 0 ..< n. if P j then 1 else 0)"
  by (induction n) simp_all

lemma clipped_window_count_sum:
  "clipped_window_count w a b sentences = sum_list (map (clipped_sentence_count w a b) sentences)"
proof -
  have "sum_list (map (\<lambda>i. if s ! i = a
           then int (length (filter (\<lambda>j. j \<noteq> i \<and> int i - w \<le> int j \<and> int j \<le> int i + w
                                           \<and> s ! j = b) [0 ..< length s]))
           else 0) [0 ..< length s]) = clipped_sentence_count w a b s" for s
    unfolding clipped_sentence_count_def length_filter_upt_sum
    by (simp add: interv_sum_list_conv_sum_set_nat) (auto intro!: sum.cong)
  then show ?thesis unfolding clipped_window_count_def by simp
qed

lemma clipped_sentence_count_sym:
  "clipped_sentence_count w a b s = clipped_sentence_count w b a s"
proof -
  have "clipped_sentence_count w a b s =
     (\<Sum>j = 0 ..< length s. \<Sum>i = 0 ..< length s.
        if s ! i = a \<and> s ! j = b \<and> j \<noteq> i \<and> int i - w \<le> int j \<and> int j \<le> int i + w then 1 else 0)"
    unfolding clipped_sentence_count_def by (rule sum.swap)
  also have "\<dots> = clipped_sentence_count w b a s"
    unfolding clipped_sentence_count_def
    by (intro sum.cong refl) auto
  finally show ?thesis .
qed

text \<open>
  The count over clipped windows is symmetric in the two words: it counts the pairs of
  distinct positions at distance at most the window that hold the one word and the other.
\<close>

theorem clipped_window_count_symmetric:
  "clipped_window_count w a b sentences = clipped_window_count w b a sentences"
proof -
  have "clipped_sentence_count w a b = clipped_sentence_count w b a"
    by (rule ext) (rule clipped_sentence_count_sym)
  then show ?thesis unfolding clipped_window_count_sum by simp
qed


lemma fold_add_sum_list:
  "fold (\<lambda>s count. count + f s) xs (a::int) = a + sum_list (map f xs)"
  by (induction xs arbitrary: a) simp_all

lemma get_cooccurance_count_sum:
  "get_cooccurance_count w t nb sentences = sum_list (map (sentence_count w t nb) sentences)"
  by (simp add: get_cooccurance_count_def fold_add_sum_list)

lemma enumerate_nth: "List.enumerate 0 s = map (\<lambda>i. (i, s ! i)) [0 ..< length s]"
  by (rule nth_equalityI) (simp_all add: nth_enumerate_eq)

lemma sentence_count_sum:
  "sentence_count w t nb s =
     sum_list (map (\<lambda>i. if s ! i = t
         then int (count_list (py_slice (int i - w) (int i) s
                                 @ py_slice (int i + 1) (int i + 1 + w) s) nb)
         else 0) [0 ..< length s])"
  unfolding sentence_count_def enumerate_nth
  by (simp add: sum_list_map_filter' comp_def split_def cong: if_cong)

lemma take_drop_nth:
  "hi \<le> length s \<Longrightarrow> take (hi - lo) (drop lo s) = map ((!) s) [lo ..< hi]"
  by (rule nth_equalityI) auto

lemma left_slice:
  assumes "i < length s" "0 \<le> w" "i = 0 \<or> w \<le> int i"
  shows "py_slice (int i - w) (int i) s = map ((!) s) [i - nat w ..< i]"
proof (cases "w \<le> int i")
  case True
  then have lo: "slice_bound (int i - w) (length s) = i - nat w"
    using assms by (auto simp: slice_bound_def min_def)
  have hi: "slice_bound (int i) (length s) = i" using assms by (simp add: slice_bound_def)
  show ?thesis unfolding py_slice_def Let_def lo hi using assms(1) by (simp add: take_drop_nth)
next
  case False
  with assms have i: "i = 0" by auto
  show ?thesis unfolding py_slice_def Let_def i by (simp add: slice_bound_def)
qed

lemma right_slice:
  assumes "i < length s" "0 \<le> w"
  shows "py_slice (int i + 1) (int i + 1 + w) s
           = map ((!) s) [Suc i ..< min (Suc i + nat w) (length s)]"
proof -
  have lo: "slice_bound (int i + 1) (length s) = Suc i"
    using assms by (auto simp: slice_bound_def min_def)
  have "nat (int i + 1 + w) = Suc i + nat w" using assms by arith
  then have hi: "slice_bound (int i + 1 + w) (length s) = min (Suc i + nat w) (length s)"
    using assms by (simp add: slice_bound_def)
  show ?thesis unfolding py_slice_def Let_def lo hi by (simp add: take_drop_nth)
qed

lemma window_positions:
  assumes "i < n" "0 \<le> w"
  shows "[i - nat w ..< i] @ [Suc i ..< min (Suc i + nat w) n]
           = filter (\<lambda>j. j \<noteq> i \<and> int i - w \<le> int j \<and> int j \<le> int i + w) [0 ..< n]"
proof (rule sorted_distinct_set_unique)
  show "sorted ([i - nat w ..< i] @ [Suc i ..< min (Suc i + nat w) n])"
    by (auto simp: sorted_append)
  show "distinct ([i - nat w ..< i] @ [Suc i ..< min (Suc i + nat w) n])" by auto
  show "sorted (filter (\<lambda>j. j \<noteq> i \<and> int i - w \<le> int j \<and> int j \<le> int i + w) [0 ..< n])"
    by (rule sorted_wrt_filter) simp
  show "distinct (filter (\<lambda>j. j \<noteq> i \<and> int i - w \<le> int j \<and> int j \<le> int i + w) [0 ..< n])"
    by simp
  show "set ([i - nat w ..< i] @ [Suc i ..< min (Suc i + nat w) n])
          = set (filter (\<lambda>j. j \<noteq> i \<and> int i - w \<le> int j \<and> int j \<le> int i + w) [0 ..< n])"
    using assms by auto
qed

lemma count_list_map_nth:
  "count_list (map ((!) s) js) x = length (filter (\<lambda>j. s ! j = x) js)"
  by (induction js) simp_all

lemma window_count:
  assumes "i < length s" "0 \<le> w" "i = 0 \<or> w \<le> int i"
  shows "count_list (py_slice (int i - w) (int i) s @ py_slice (int i + 1) (int i + 1 + w) s) nb
           = length (filter (\<lambda>j. j \<noteq> i \<and> int i - w \<le> int j \<and> int j \<le> int i + w \<and> s ! j = nb)
                       [0 ..< length s])"
proof -
  have "py_slice (int i - w) (int i) s @ py_slice (int i + 1) (int i + 1 + w) s
          = map ((!) s) ([i - nat w ..< i] @ [Suc i ..< min (Suc i + nat w) (length s)])"
    by (simp add: left_slice [OF assms] right_slice [OF assms(1,2)])
  also have "\<dots> = map ((!) s)
       (filter (\<lambda>j. j \<noteq> i \<and> int i - w \<le> int j \<and> int j \<le> int i + w) [0 ..< length s])"
    by (simp only: window_positions [OF assms(1,2)])
  finally show ?thesis
    by (simp add: count_list_map_nth conj_commute conj_left_commute cong: conj_cong)
qed

text \<open>
  The code computes the clipped count whenever no left slice starts at a negative index
  other than for a target at position 0: the window is not negative, and every other
  occurrence of the target is at a position of at least the window. Window 1 is always
  of this kind.
\<close>

theorem cooccurance_count_clipped_unless_wrapped:
  assumes w: "0 \<le> w"
    and pos: "\<forall>s \<in> set sentences. \<forall>i < length s. s ! i = target \<longrightarrow> i = 0 \<or> w \<le> int i"
  shows "get_cooccurance_count w target neighbor sentences
           = clipped_window_count w target neighbor sentences"
proof -
  have "sentence_count w target neighbor s =
        sum_list (map (\<lambda>i. if s ! i = target
           then int (length (filter (\<lambda>j. j \<noteq> i \<and> int i - w \<le> int j \<and> int j \<le> int i + w
                                           \<and> s ! j = neighbor) [0 ..< length s]))
           else 0) [0 ..< length s])" if "s \<in> set sentences" for s
    unfolding sentence_count_sum
  proof (rule arg_cong [where f = sum_list], rule map_cong [OF refl])
    fix i assume "i \<in> set [0 ..< length s]"
    then have i: "i < length s" by simp
    show "(if s ! i = target
           then int (count_list (py_slice (int i - w) (int i) s
                                   @ py_slice (int i + 1) (int i + 1 + w) s) neighbor)
           else 0)
        = (if s ! i = target
           then int (length (filter (\<lambda>j. j \<noteq> i \<and> int i - w \<le> int j \<and> int j \<le> int i + w
                                           \<and> s ! j = neighbor) [0 ..< length s]))
           else 0)"
    proof (cases "s ! i = target")
      case True
      with pos that i have "i = 0 \<or> w \<le> int i" by blast
      from window_count [OF i w this] True show ?thesis by simp
    next
      case False
      then show ?thesis by simp
    qed
  qed
  then show ?thesis
    unfolding get_cooccurance_count_sum clipped_window_count_def
    by (intro arg_cong [where f = sum_list] map_cong refl)
qed

lemma cooccurance_doctest:
  "get_cooccurance_count 1 ''NLP'' ''like''
     [[''I'', ''like'', ''NLP''], [''I'', ''like'', ''NLP'', ''problems'']] = 2"
  by code_simp

text \<open>
  C1. As specified, for every window \<open>w \<ge> 1\<close> the count is the number of neighbors in
  \<open>[i - w, i)\<close> and \<open>(i, i + w]\<close> around each target position \<open>i\<close>, both ranges clipped
  at the sentence boundaries. The code does not clip the left range: where \<open>i < w\<close> the
  negative start of \<open>s[i-window:i]\<close> counts from the end of the sentence. With window 2
  in the sentence \<open>["like", "NLP"]\<close> the left slice of the target \<open>NLP\<close> (position 1) is
  \<open>s[-1:1]\<close>, which is empty, so the code counts 0 where the clipped window holds 1.
\<close>

theorem cooccurance_left_window_wraps:
  "get_cooccurance_count 2 ''NLP'' ''like'' [[''like'', ''NLP'']] = 0
   \<and> clipped_window_count 2 ''NLP'' ''like'' [[''like'', ''NLP'']] = 1
   \<and> py_slice (1 - 2) 1 [''like'', ''NLP''] = []"
proof -
  have 0: "get_cooccurance_count 2 ''NLP'' ''like'' [[''like'', ''NLP'']] = 0" by code_simp
  have 1: "clipped_window_count 2 ''NLP'' ''like'' [[''like'', ''NLP'']] = 1" by code_simp
  have 2: "py_slice (1 - 2) 1 [''like'', ''NLP''] = []" by code_simp
  show ?thesis unfolding 0 1 2 by simp
qed

text \<open>
  C2. As specified, the matrix is symmetric for every window. On the code it is not, by the
  same left slice: with window 2, vocabulary \<open>["like", "NLP"]\<close> and the one sentence
  \<open>["like", "NLP"]\<close>, the cell (like, NLP) is 1 and the cell (NLP, like) is 0.
\<close>

theorem cooccurance_matrix_asymmetric:
  "build_cooccurance_matrix 2 [''like'', ''NLP''] [[''like'', ''NLP'']] = [[0, 1], [0, 0]]
   \<and> get_cooccurance_count 2 ''like'' ''NLP'' [[''like'', ''NLP'']] = 1
   \<and> get_cooccurance_count 2 ''NLP'' ''like'' [[''like'', ''NLP'']] = 0"
proof -
  have 0: "build_cooccurance_matrix 2 [''like'', ''NLP''] [[''like'', ''NLP'']] = [[0, 1], [0, 0]]"
    by code_simp
  have 1: "get_cooccurance_count 2 ''like'' ''NLP'' [[''like'', ''NLP'']] = 1" by code_simp
  have 2: "get_cooccurance_count 2 ''NLP'' ''like'' [[''like'', ''NLP'']] = 0" by code_simp
  show ?thesis unfolding 0 1 2 by simp
qed

section \<open>Properties of skip_gram\<close>

lemma map_err_total:
  "(\<And>x. x \<in> set xs \<Longrightarrow> f x = Inr (g x)) \<Longrightarrow> map_err f xs = Inr (map g xs)"
  by (induction xs) auto

lemma py_index_nat: "i < length xs \<Longrightarrow> py_index xs (int i) = Inr (xs ! i)"
  by (simp add: py_index_def Let_def)

lemma inner_range:
  assumes "0 \<le> k"
  shows "py_range3 1 (n + k) (k + 1) =
           Inr (map (\<lambda>t. 1 + int t * (k + 1)) [0 ..< nat ((n + 2 * k - 1) div (k + 1))])"
proof -
  have a: "n + k - 1 + (k + 1) - 1 = n + 2 * k - 1" by simp
  have b: "k + 1 \<noteq> 0" "0 < k + 1" using assms by simp_all
  show ?thesis unfolding py_range3_def a using b by (simp only: if_False if_True)
qed

lemma int_div_less:
  fixes a b c :: int
  assumes "0 < b" "a < c * b"
  shows "a div b < c"
proof (rule ccontr)
  assume "\<not> a div b < c"
  then have "c \<le> a div b" by simp
  then have 1: "c * b \<le> a div b * b" using assms(1) by (intro mult_right_mono) simp_all
  have 2: "a div b * b + a mod b = a" by simp
  have 3: "0 \<le> a mod b" using assms(1) by simp
  from 1 2 3 assms(2) show False by linarith
qed

lemma inner_range_short:
  fixes k n :: int
  assumes "0 \<le> k" "2 \<le> n"
  shows "(n + 2 * k - 1) div (k + 1) \<le> n - 1"
proof -
  have "2 * k \<le> n * k" using assms by (intro mult_right_mono) auto
  then have "n + 2 * k - 1 < n * (k + 1)" by (simp add: algebra_simps)
  then have "(n + 2 * k - 1) div (k + 1) < n"
    using assms by (intro int_div_less) simp_all
  then show ?thesis by simp
qed

text \<open>
  What the code computes for \<open>k \<ge> 0\<close> and \<open>n \<ge> 2\<close>: no index is out of range, there is
  one entry for each start \<open>i\<close> with \<open>i + (n-1)(k+1) < L\<close>, and entry \<open>i\<close> joins the words
  \<open>word[i + t(k+1)]\<close> for \<open>t = 0 .. m\<close>, where \<open>m = (n + 2k - 1) div (k + 1)\<close> is the length
  of \<open>range(1, n+k, k+1)\<close>. For \<open>k \<ge> 1\<close> that gives \<open>n\<close> words when \<open>n\<close> is 2 or 3 and
  fewer than \<open>n\<close> words when \<open>n \<ge> 4\<close>.
\<close>

theorem skip_gram_entries:
  assumes k: "0 \<le> k" and n: "2 \<le> n"
  shows "skip_gram k n text =
     Inr (map (\<lambda>i. join_sp (map (\<lambda>t. split_sp text ! (i + t * nat (k + 1)))
                               [0 ..< Suc (nat ((n + 2 * k - 1) div (k + 1)))]))
            [0 ..< length (split_sp text) - nat ((1 + k) * (n - 1))])"
proof -
  let ?ws = "split_sp text"
  let ?L = "length ?ws"
  let ?m = "nat ((n + 2 * k - 1) div (k + 1))"
  let ?s = "nat (k + 1)"
  let ?N = "?L - nat ((1 + k) * (n - 1))"
  have m: "?m \<le> nat (n - 1)" using inner_range_short [OF k n] by simp
  have span: "nat ((1 + k) * (n - 1)) = nat (n - 1) * ?s"
    using k n by (simp add: nat_mult_distrib mult.commute)
  have at: "skip_gram_at k n ?ws (int i) =
              Inr (map (\<lambda>t. ?ws ! (i + t * ?s)) [0 ..< Suc ?m])" if i: "i < ?N" for i
  proof -
    have bound: "i + (Suc t) * ?s < ?L" if "t < ?m" for t
    proof -
      from that m have "Suc t \<le> nat (n - 1)" by simp
      then have le: "Suc t * ?s \<le> nat (n - 1) * ?s" by (rule mult_le_mono1)
      from i have "i + nat ((1 + k) * (n - 1)) < ?L" by arith
      then have "i + nat (n - 1) * ?s < ?L" unfolding span .
      with le show ?thesis by arith
    qed
    have first: "py_index ?ws (int i) = Inr (?ws ! i)" using i by (simp add: py_index_nat)
    have idx: "int i + k + (1 + int t * (k + 1)) = int (i + Suc t * ?s)" for t
      using k by (simp add: algebra_simps)
    have rest: "map_err (\<lambda>j. py_index ?ws (int i + k + j))
                  (map (\<lambda>t. 1 + int t * (k + 1)) [0 ..< ?m])
                = Inr (map (\<lambda>j. ?ws ! nat (int i + k + j)) (map (\<lambda>t. 1 + int t * (k + 1)) [0 ..< ?m]))"
    proof (rule map_err_total)
      fix j assume "j \<in> set (map (\<lambda>t. 1 + int t * (k + 1)) [0 ..< ?m])"
      then obtain t where t: "t < ?m" and j: "j = 1 + int t * (k + 1)" by auto
      show "py_index ?ws (int i + k + j) = Inr (?ws ! nat (int i + k + j))"
        unfolding j idx using bound [OF t] by (simp only: py_index_nat nat_int)
    qed
    have "map (\<lambda>j. ?ws ! nat (int i + k + j)) (map (\<lambda>t. 1 + int t * (k + 1)) [0 ..< ?m])
            = map (\<lambda>t. ?ws ! (i + Suc t * ?s)) [0 ..< ?m]"
      by (simp only: map_map comp_def idx nat_int)
    also have "\<dots> = map (\<lambda>t. ?ws ! (i + t * ?s)) (map Suc [0 ..< ?m])"
      by (simp only: map_map comp_def)
    finally have tl: "map (\<lambda>j. ?ws ! nat (int i + k + j)) (map (\<lambda>t. 1 + int t * (k + 1)) [0 ..< ?m])
            = map (\<lambda>t. ?ws ! (i + t * ?s)) (map Suc [0 ..< ?m])" .
    have "[0 ..< Suc ?m] = 0 # map Suc [0 ..< ?m]"
      by (simp only: upt_conv_Cons zero_less_Suc map_Suc_upt)
    then show ?thesis
      unfolding skip_gram_at_def first inner_range [OF k] sum.case rest tl by simp
  qed
  have rng: "py_range (int ?L - (1 + k) * (n - 1)) = map int [0 ..< ?N]"
  proof -
    have "0 \<le> (1 + k) * (n - 1)" using k n by simp
    then have "nat (int ?L - (1 + k) * (n - 1)) = ?N" by arith
    then show ?thesis by (simp add: py_range_def)
  qed
  have "map_err (skip_gram_at k n ?ws) (map int [0 ..< ?N])
          = Inr (map (\<lambda>j. map (\<lambda>t. ?ws ! (nat j + t * ?s)) [0 ..< Suc ?m]) (map int [0 ..< ?N]))"
  proof (rule map_err_total)
    fix j assume "j \<in> set (map int [0 ..< ?N])"
    then obtain i where "i < ?N" "j = int i" by auto
    then show "skip_gram_at k n ?ws j = Inr (map (\<lambda>t. ?ws ! (nat j + t * ?s)) [0 ..< Suc ?m])"
      using at by simp
  qed
  then show ?thesis
    unfolding skip_gram_def Let_def rng by (simp add: comp_def)
qed

lemma skip_gram_words_small_n:
  fixes k n :: int
  assumes "1 \<le> k" "n = 2 \<or> n = 3"
  shows "Suc (nat ((n + 2 * k - 1) div (k + 1))) = nat n"
proof -
  have "(2 * k + 1) div (k + 1) = 1"
    by (rule int_div_pos_eq [of _ _ _ k]) (use assms(1) in simp_all)
  moreover have "(2 * k + 2) div (k + 1) = 2"
    by (rule int_div_pos_eq [of _ _ _ 0]) (use assms(1) in simp_all)
  ultimately show ?thesis using assms(2) by (auto simp: algebra_simps)
qed

lemma skip_gram_words_large_n:
  fixes k n :: int
  assumes "1 \<le> k" "4 \<le> n"
  shows "Suc (nat ((n + 2 * k - 1) div (k + 1))) < nat n"
proof -
  have "4 * k \<le> n * k" using assms by (intro mult_right_mono) auto
  then have "n + 2 * k - 1 < (n - 1) * (k + 1)" using assms by (simp add: algebra_simps)
  then have "(n + 2 * k - 1) div (k + 1) < n - 1"
    using assms by (intro int_div_less) simp_all
  then show ?thesis using assms by simp
qed

lemma skip_gram_doctest:
  "skip_gram 1 2 ''the rain in Spain falls mainly on the plain'' =
     Inr [''the in'', ''rain Spain'', ''in falls'', ''Spain mainly'', ''falls on'',
          ''mainly the'', ''on plain'']"
  by code_simp

text \<open>
  C3. As specified, for \<open>k \<ge> 1\<close> and \<open>n \<ge> 2\<close> every entry of \<open>skip_gram k n text\<close> has
  exactly \<open>n\<close> words, \<open>word[i + t(k+1)]\<close> for \<open>t = 0 .. n-1\<close>. The code takes the words
  after the first from \<open>range(1, n+k, k+1)\<close>, which has fewer than \<open>n - 1\<close> elements once
  \<open>n \<ge> 4\<close>: for \<open>k = 1\<close>, \<open>n = 4\<close> and seven words the one entry has three words, not
  the four \<open>a c e g\<close>.
\<close>

theorem skip_gram_short_entries:
  "skip_gram 1 4 ''a b c d e f g'' = Inr [''a c e'']
   \<and> py_range3 1 (4 + 1) (1 + 1) = Inr [1, 3]"
proof -
  have 0: "skip_gram 1 4 ''a b c d e f g'' = Inr [''a c e'']" by code_simp
  have 1: "py_range3 1 (4 + 1) (1 + 1) = Inr [1, 3]" by code_simp
  show ?thesis unfolding 0 1 by simp
qed

section \<open>Properties of the normalizer\<close>

text \<open>
  C7. As specified, on lowercase text without punctuation and numbers, normalizing twice
  is normalizing once. The text \<open>a i i b\<close> is of that kind (it is itself the normal form
  of \<open>a i.i b\<close>), but \<open>uppercase_i\<close> replaces non-overlapping matches of \<open>\s+i\s+\<close>, and
  the match of the first \<open>i\<close> takes the space that the second needs: one pass gives
  \<open>a I i b\<close>, and the second pass gives \<open>a I I b\<close>.
\<close>

theorem normalize_not_idempotent:
  "normalize ''a i.i b'' = ''a i i b''
   \<and> normalize ''a i i b'' = ''a I i b''
   \<and> normalize (normalize ''a i i b'') = ''a I I b''
   \<and> uppercase_i ''a i i b'' = ''a I i b''"
proof -
  have 0: "normalize ''a i.i b'' = ''a i i b''" by code_simp
  have 1: "normalize ''a i i b'' = ''a I i b''" by code_simp
  have 2: "normalize ''a I i b'' = ''a I I b''" by code_simp
  have 3: "uppercase_i ''a i i b'' = ''a I i b''" by code_simp
  show ?thesis unfolding 0 1 2 3 by simp
qed

section \<open>Properties of tfidf\<close>

lemma no_document_contains:
  "length (filter (\<lambda>d. term \<in> set d) docs) = 0 \<longleftrightarrow> (\<forall>d \<in> set docs. term \<notin> set d)"
  by (simp add: filter_empty_conv)

text \<open>
  C6. \<open>tfidf term doc docs\<close> raises the division-by-zero error exactly when \<open>doc\<close> is
  empty or no document of \<open>docs\<close> contains the term, and raises nothing else; when
  \<open>doc\<close> is not empty and some document contains the term it returns
  (count of the term in \<open>doc\<close> / \<open>len(doc)\<close>) times
  \<open>ln(1 + |docs| / number of documents that contain the term)\<close>.
\<close>

theorem tfidf_domain:
  "(tfidf term doc docs = Inl ZeroDivisionError
      \<longleftrightarrow> doc = [] \<or> (\<forall>d \<in> set docs. term \<notin> set d))
   \<and> (doc \<noteq> [] \<and> (\<exists>d \<in> set docs. term \<in> set d) \<longrightarrow>
        tfidf term doc docs =
          Inr (real (count_list doc term) / real (length doc)
               * ln (1 + real (length docs)
                         / real (length (filter (\<lambda>d. term \<in> set d) docs)))))
   \<and> (\<forall>e. tfidf term doc docs = Inl e \<longrightarrow> e = ZeroDivisionError)"
proof -
  show ?thesis
  proof (cases "doc = []")
    case True
    then show ?thesis by (simp add: tfidf_def)
  next
    case False
    show ?thesis
    proof (cases "\<forall>d \<in> set docs. term \<notin> set d")
      case True
      then have "filter (\<lambda>d. term \<in> set d) docs = []" by (simp add: filter_empty_conv)
      with False True show ?thesis by (simp add: tfidf_def Let_def)
    next
      case some: False
      then have "filter (\<lambda>d. term \<in> set d) docs \<noteq> []" by (simp add: filter_empty_conv)
      with False some show ?thesis by (simp add: tfidf_def Let_def)
    qed
  qed
qed

theorem tfidf_domain_witness:
  "tfidf ''c'' [''a'', ''c'', ''c''] [[''a''], [''a'', ''c'', ''c''], [''a'', ''b'', ''c'']]
     = Inr (2 / 3 * ln (1 + 3 / 2))
   \<and> tfidf ''c'' [] [[''a''], [''a'', ''c'', ''c'']] = Inl ZeroDivisionError
   \<and> tfidf ''c'' [''a'', ''c''] [[''a''], [''b'']] = Inl ZeroDivisionError"
proof -
  have 1: "tfidf ''c'' [''a'', ''c'', ''c''] [[''a''], [''a'', ''c'', ''c''], [''a'', ''b'', ''c'']]
     = Inr (2 / 3 * ln (1 + 3 / 2))"
    using tfidf_domain [of "''c''" "[''a'', ''c'', ''c'']" "[[''a''], [''a'', ''c'', ''c''], [''a'', ''b'', ''c'']]"]
    by simp
  have 2: "tfidf ''c'' [] [[''a''], [''a'', ''c'', ''c'']] = Inl ZeroDivisionError"
    using tfidf_domain [of "''c''" "[]" "[[''a''], [''a'', ''c'', ''c'']]"] by simp
  have 3: "tfidf ''c'' [''a'', ''c''] [[''a''], [''b'']] = Inl ZeroDivisionError"
    using tfidf_domain [of "''c''" "[''a'', ''c'']" "[[''a''], [''b'']]"] by simp
  from 1 2 3 show ?thesis by blast
qed

section \<open>Properties of bigram_predict\<close>

lemma py_index_last: "xs \<noteq> [] \<Longrightarrow> py_index xs (- 1) = Inr (last xs)"
  by (cases xs rule: rev_cases) (auto simp: py_index_def Let_def nth_append)

lemma py_index_second_last:
  "py_index xs (- 2) = (if 2 \<le> length xs then Inr (xs ! (length xs - 2)) else Inl IndexError)"
proof -
  have "nat (int (length xs) - 2) = length xs - 2" by arith
  then show ?thesis by (auto simp: py_index_def Let_def)
qed

lemma scan_tokens_find:
  "\<forall>x \<in> set xs. 2 \<le> length (split_sp (fst x)) \<Longrightarrow>
   scan_tokens w xs =
     Inr (case find (\<lambda>x. w = second_last_word (fst x)) xs of
            None \<Rightarrow> [] | Some x \<Rightarrow> last_word (fst x))"
  by (induction xs)
     (auto simp: Let_def py_index_second_last py_index_last split_sp_nonempty
                 second_last_word_def last_word_def)

text \<open>
  C8. When every key of the token table has at least two words, \<open>bigram_predict\<close>
  raises nothing: it scans the entries sorted by count, highest first and stable (entries
  of equal count keep their insertion order; the sorted list is a rearrangement of the
  table), and returns the last word of the first key whose second-to-last word is the
  last word of the prefix text, or the empty string when no key matches.
\<close>

theorem bigram_predict_first_match:
  assumes "\<forall>x \<in> set t. 2 \<le> length (split_sp (fst x))"
  shows "bigram_predict t s =
           Inr (case find (\<lambda>x. last_word s = second_last_word (fst x))
                       (sort_key (\<lambda>x. - snd x) t) of
                  None \<Rightarrow> [] | Some x \<Rightarrow> last_word (fst x))
       \<and> sorted_wrt (\<lambda>x y. snd y \<le> snd x) (sort_key (\<lambda>x. - snd x) t)
       \<and> mset (sort_key (\<lambda>x. - snd x) t) = mset t
       \<and> (\<forall>c. filter (\<lambda>x. snd x = c) (sort_key (\<lambda>x. - snd x) t) = filter (\<lambda>x. snd x = c) t)"
proof -
  let ?srt = "sort_key (\<lambda>x. - snd x) t"
  have "\<forall>x \<in> set ?srt. 2 \<le> length (split_sp (fst x))" using assms by simp
  then have 1: "bigram_predict t s =
           Inr (case find (\<lambda>x. last_word s = second_last_word (fst x)) ?srt of
                  None \<Rightarrow> [] | Some x \<Rightarrow> last_word (fst x))"
    unfolding bigram_predict_def
    by (simp add: py_index_last split_sp_nonempty scan_tokens_find last_word_def)
  have "sorted (map (\<lambda>x. - snd x) ?srt)" by (rule sorted_sort_key)
  then have 2: "sorted_wrt (\<lambda>x y. snd y \<le> snd x) ?srt"
    by (simp add: sorted_wrt_map)
  have 3: "mset ?srt = mset t" by simp
  have 4: "filter (\<lambda>x. snd x = c) ?srt = filter (\<lambda>x. snd x = c) t" for c
    using sort_key_stable [of "\<lambda>x. - snd x" "- c" t] by simp
  from 1 2 3 4 show ?thesis by blast
qed

theorem bigram_predict_first_match_witness:
  "bigram_predict [(''the rain'', 2), (''in spain'', 2), (''rain in'', 2), (''spain falls'', 1),
                   (''falls mainly'', 1), (''mainly in'', 1)] ''in the'' = Inr ''rain''
   \<and> list_all (\<lambda>x. 2 \<le> length (split_sp (fst x)))
        [(''the rain'', 2::int), (''in spain'', 2), (''rain in'', 2), (''spain falls'', 1),
         (''falls mainly'', 1), (''mainly in'', 1)]"
proof -
  let ?t = "[(''the rain'', 2::int), (''in spain'', 2), (''rain in'', 2), (''spain falls'', 1),
             (''falls mainly'', 1), (''mainly in'', 1)]"
  have h: "list_all (\<lambda>x. 2 \<le> length (split_sp (fst x))) ?t" by code_simp
  then have h': "\<forall>x \<in> set ?t. 2 \<le> length (split_sp (fst x))" unfolding list_all_iff .
  have srt: "sort_key (\<lambda>x. - snd x) ?t = ?t" by code_simp
  have fnd: "(case find (\<lambda>x. last_word ''in the'' = second_last_word (fst x)) ?t of
                  None \<Rightarrow> [] | Some x \<Rightarrow> last_word (fst x)) = ''rain''"
    by code_simp
  from bigram_predict_first_match [OF h', of "''in the''"]
  have "bigram_predict ?t ''in the'' = Inr ''rain''" unfolding srt fnd by blast
  with h show ?thesis by blast
qed

lemma scan_tokens_error:
  "scan_tokens w xs = Inl e \<longleftrightarrow>
     e = IndexError \<and>
     (\<exists>pre x post. xs = pre @ x # post \<and> length (split_sp (fst x)) < 2
        \<and> (\<forall>y \<in> set pre. 2 \<le> length (split_sp (fst y)) \<and> w \<noteq> second_last_word (fst y)))"
proof (induction xs)
  case Nil
  show ?case by simp
next
  case (Cons a xs)
  show ?case
  proof (cases "2 \<le> length (split_sp (fst a))")
    case False
    then have "scan_tokens w (a # xs) = Inl IndexError"
      by (simp add: Let_def py_index_second_last)
    moreover have "\<exists>pre x post. a # xs = pre @ x # post \<and> length (split_sp (fst x)) < 2
        \<and> (\<forall>y \<in> set pre. 2 \<le> length (split_sp (fst y)) \<and> w \<noteq> second_last_word (fst y))"
      using False by (intro exI [of _ "[]"] exI [of _ a] exI [of _ xs]) simp
    ultimately show ?thesis by auto
  next
    case two: True
    show ?thesis
    proof (cases "w = second_last_word (fst a)")
      case True
      with two have "scan_tokens w (a # xs) = Inr (last_word (fst a))"
        by (simp add: Let_def py_index_second_last py_index_last split_sp_nonempty
              second_last_word_def last_word_def)
      moreover have "\<not> (\<exists>pre x post. a # xs = pre @ x # post \<and> length (split_sp (fst x)) < 2
        \<and> (\<forall>y \<in> set pre. 2 \<le> length (split_sp (fst y)) \<and> w \<noteq> second_last_word (fst y)))"
        using True two by (auto simp: Cons_eq_append_conv)
      ultimately show ?thesis by simp
    next
      case False
      with two have step: "scan_tokens w (a # xs) = scan_tokens w xs"
        by (simp add: Let_def py_index_second_last second_last_word_def)
      have "(\<exists>pre x post. a # xs = pre @ x # post \<and> length (split_sp (fst x)) < 2
        \<and> (\<forall>y \<in> set pre. 2 \<le> length (split_sp (fst y)) \<and> w \<noteq> second_last_word (fst y)))
        \<longleftrightarrow> (\<exists>pre x post. xs = pre @ x # post \<and> length (split_sp (fst x)) < 2
        \<and> (\<forall>y \<in> set pre. 2 \<le> length (split_sp (fst y)) \<and> w \<noteq> second_last_word (fst y)))"
        (is "?L \<longleftrightarrow> ?R")
      proof
        assume ?L
        then obtain pre x post where eq: "a # xs = pre @ x # post"
          and x: "length (split_sp (fst x)) < 2"
          and pre: "\<forall>y \<in> set pre. 2 \<le> length (split_sp (fst y)) \<and> w \<noteq> second_last_word (fst y)"
          by blast
        from eq x two obtain pre' where p: "pre = a # pre'" and xs: "xs = pre' @ x # post"
          by (cases pre) auto
        from pre p
        have "\<forall>y \<in> set pre'. 2 \<le> length (split_sp (fst y)) \<and> w \<noteq> second_last_word (fst y)"
          by simp
        with xs x show ?R by blast
      next
        assume ?R
        then obtain pre x post where eq: "xs = pre @ x # post"
          and x: "length (split_sp (fst x)) < 2"
          and pre: "\<forall>y \<in> set pre. 2 \<le> length (split_sp (fst y)) \<and> w \<noteq> second_last_word (fst y)"
          by blast
        from eq have "a # xs = (a # pre) @ x # post" by simp
        moreover from pre two False
        have "\<forall>y \<in> set (a # pre). 2 \<le> length (split_sp (fst y)) \<and> w \<noteq> second_last_word (fst y)"
          by simp
        ultimately show ?L using x by blast
      qed
      with step Cons.IH show ?thesis by simp
    qed
  qed
qed

text \<open>
  C10. \<open>bigram_predict\<close> raises exactly when the scan, in sorted order, reaches a key of
  fewer than two words before any key has matched; the error is then the index error of
  \<open>ngram[-2]\<close>. It returns a word in every other case.
\<close>

theorem bigram_predict_unigram_key:
  "bigram_predict t s = Inl e \<longleftrightarrow>
     e = IndexError \<and>
     (\<exists>pre x post. sort_key (\<lambda>x. - snd x) t = pre @ x # post
        \<and> length (split_sp (fst x)) < 2
        \<and> (\<forall>y \<in> set pre. 2 \<le> length (split_sp (fst y))
                          \<and> last_word s \<noteq> second_last_word (fst y)))"
  unfolding bigram_predict_def
  by (simp add: py_index_last split_sp_nonempty scan_tokens_error last_word_def)

theorem bigram_predict_unigram_key_witness:
  "bigram_predict [(''the rain'', 2), (''rain'', 3)] ''in the'' = Inl IndexError
   \<and> bigram_predict [(''the rain'', 3), (''rain'', 2)] ''in the'' = Inr ''rain''
   \<and> sort_key (\<lambda>x. - snd x) [(''the rain'', 2::int), (''rain'', 3)] = [] @ (''rain'', 3) # [(''the rain'', 2)]
   \<and> length (split_sp (fst (''rain'', 3::int))) < 2"
proof -
  have srt: "sort_key (\<lambda>x. - snd x) [(''the rain'', 2::int), (''rain'', 3)] = [] @ (''rain'', 3) # [(''the rain'', 2)]"
    by code_simp
  have len: "length (split_sp (fst (''rain'', 3::int))) < 2" by code_simp
  have "\<exists>pre x post. sort_key (\<lambda>x. - snd x) [(''the rain'', 2::int), (''rain'', 3)] = pre @ x # post
        \<and> length (split_sp (fst x)) < 2
        \<and> (\<forall>y \<in> set pre. 2 \<le> length (split_sp (fst y))
                          \<and> last_word ''in the'' \<noteq> second_last_word (fst y))"
    using srt len by (intro exI [of _ "[]"] exI [of _ "(''rain'', 3)"] exI [of _ "[(''the rain'', 2)]"]) simp
  then have 1: "bigram_predict [(''the rain'', 2), (''rain'', 3)] ''in the'' = Inl IndexError"
    using bigram_predict_unigram_key [of "[(''the rain'', 2), (''rain'', 3)]" "''in the''" IndexError]
    by blast
  have 2: "bigram_predict [(''the rain'', 3), (''rain'', 2)] ''in the'' = Inr ''rain''" by code_simp
  from 1 2 srt len show ?thesis by blast
qed

section \<open>Properties of the stemmer\<close>

lemma matches_lit:
  "matches (lit p) (seen, s) =
     (if take (length p) s = p then [(rev p @ seen, drop (length p) s)] else [])"
proof (induction p arbitrary: seen s rule: lit.induct)
  case 1
  show ?case by simp
next
  case (2 c)
  show ?case by (cases s) auto
next
  case (3 c d cs)
  show ?case by (cases s) (auto simp: 3)
qed

lemma re_match_Alt: "re_match (Alt r1 r2) s \<longleftrightarrow> re_match r1 s \<or> re_match r2 s"
  by (simp add: re_match_def)

lemma re_match_either:
  "re_match (either a b rest) s \<longleftrightarrow> starts_with (a # rest) s \<or> starts_with (b # rest) s"
  by (cases s) (auto simp: re_match_def either_def matches_lit starts_with_def)

lemma matches_ing:
  "matches (lit ''ing'') (seen, s) =
     (if take 3 s = ''ing'' then [(rev ''ing'' @ seen, drop 3 s)] else [])"
proof -
  have l: "length ''ing'' = 3" by simp
  show ?thesis by (simp only: matches_lit l)
qed

lemma take_ing_length: "take 3 s = ''ing'' \<Longrightarrow> 3 \<le> length s"
proof -
  assume "take 3 s = ''ing''"
  then have "length (take 3 s) = 3" by simp
  then show ?thesis by simp
qed

lemma re_match_letter_ing:
  "re_match (Seq (Cls letter) (lit ''ing'')) s
     \<longleftrightarrow> 4 \<le> length s \<and> letter (s ! 0) \<and> take 3 (drop 1 s) = ''ing''"
proof (cases s)
  case Nil
  then show ?thesis by (simp add: re_match_def)
next
  case (Cons c cs)
  then show ?thesis using take_ing_length [of cs]
    by (auto simp: re_match_def matches_ing simp del: lit.simps)
qed

lemma re_match_letter_dot_ing:
  "re_match (seqs [Cls letter, Cls dot, lit ''ing'']) s
     \<longleftrightarrow> 5 \<le> length s \<and> letter (s ! 0) \<and> dot (s ! 1) \<and> take 3 (drop 2 s) = ''ing''"
proof (cases s)
  case Nil
  then show ?thesis by (simp add: re_match_def)
next
  case outer: (Cons c cs)
  show ?thesis
  proof (cases cs)
    case Nil
    with outer show ?thesis by (simp add: re_match_def)
  next
    case (Cons d ds)
    then show ?thesis using outer take_ing_length [of ds]
      by (auto simp: re_match_def matches_ing simp del: lit.simps)
  qed
qed

lemma capitalized_listed:
  "map capitalized listed_exceptions =
     [''Something'', ''Nothing'', ''During'', ''Evening'', ''Morning'', ''String'', ''Ceiling'',
      ''Sterling'', ''Cling'', ''Gosling'', ''Icing'', ''Shilling'', ''Sting'', ''Viking'',
      ''Filing'', ''Carling'']"
  by code_simp

lemma re_match_exceptions_ing: "re_match exceptions_ing w \<longleftrightarrow> exception_prefix w"
  unfolding exceptions_ing_def exception_prefix_def capitalized_listed
  by (simp add: re_match_Alt re_match_either re_match_letter_ing re_match_letter_dot_ing
        listed_exceptions_def del: seqs.simps lit.simps)
     blast

lemma short_ing_word_prefix: "short_ing_word w \<Longrightarrow> exception_prefix w"
  unfolding short_ing_word_def exception_prefix_def by auto

lemma listed_exception_prefix:
  assumes "x \<in> set (listed_exceptions @ map capitalized listed_exceptions)"
  shows "exception_prefix x"
proof -
  have "starts_with x x" by (simp add: starts_with_def)
  with assms show ?thesis unfolding exception_prefix_def list_ex_iff by blast
qed

text \<open>
  C9, as amended. \<open>stem\<close> returns unchanged each of the sixteen listed words, with its
  first letter in either case, and every short word in \<open>ing\<close>: a letter followed by
  \<open>ing\<close>, or a letter, one more character other than a newline, and \<open>ing\<close>.
\<close>

theorem stem_exceptions_unchanged:
  "(short_ing_word w \<longrightarrow> stem w = Inr w)
   \<and> (\<forall>x \<in> set (listed_exceptions @ map capitalized listed_exceptions). stem x = Inr x)"
proof -
  have "stem v = Inr v" if "exception_prefix v" for v
    using that by (simp add: stem_def re_match_exceptions_ing)
  then show ?thesis using short_ing_word_prefix listed_exception_prefix by blast
qed

theorem stem_exceptions_unchanged_witness:
  "short_ing_word ''sing'' \<and> stem ''sing'' = Inr ''sing''
   \<and> short_ing_word ''thing'' \<and> stem ''thing'' = Inr ''thing''
   \<and> list_ex (\<lambda>x. x = ''sterling'') (listed_exceptions @ map capitalized listed_exceptions)
   \<and> stem ''sterling'' = Inr ''sterling''"
proof -
  have a: "short_ing_word ''sing''" by code_simp
  have b: "short_ing_word ''thing''" by code_simp
  have c: "list_ex (\<lambda>x. x = ''sterling'') (listed_exceptions @ map capitalized listed_exceptions)"
    by code_simp
  then have c': "''sterling'' \<in> set (listed_exceptions @ map capitalized listed_exceptions)"
    unfolding list_ex_iff by blast
  from stem_exceptions_unchanged [of "''sing''"] stem_exceptions_unchanged [of "''thing''"] a b c c'
  show ?thesis by blast
qed

text \<open>
  C9. The specification also puts every word whose last letters are \<open>ing\<close> into the
  exception set. \<open>thinking\<close> is such a word and is stemmed to \<open>think\<close>, as the docstring of \<open>stem\<close>
  documents.
\<close>

theorem stem_ing_counterexample:
  "spec_exception ''thinking'' \<and> stem ''thinking'' = Inr ''think''
   \<and> stem ''thinking'' \<noteq> Inr ''thinking''"
proof -
  have a: "spec_exception ''thinking''" by code_simp
  have b: "stem ''thinking'' = Inr ''think''" by code_simp
  from a b show ?thesis by simp
qed

lemma stem_doctests:
  "map stem [''derived'', ''derives'', ''derivative'', ''sing''] =
     [Inr ''deriv'', Inr ''deriv'', Inr ''deriv'', Inr ''sing'']"
  by code_simp

end
